theory Spec2Isabelle
  imports Main
begin


section \<open>JavaScript strings\<close>

text \<open>
  A JavaScript string is a sequence of UTF-16 code units, and \<open>length\<close>,
  \<open>substring\<close>, \<open>trim\<close> and the regular expressions of \<open>competitor_scanner.js\<close>
  (none carries the \<open>u\<close> flag) all work on code units. A code unit is modelled by its
  number; \<open>js\<close> turns an ASCII literal into such a string.
\<close>

type_synonym jschar = nat
type_synonym jsstring = "jschar list"

definition js :: "string \<Rightarrow> jsstring" where
  "js s = map of_char s"

text \<open>
  \<open>String.prototype.trim\<close> strips WhiteSpace and LineTerminator code units from both
  ends: TAB, LF, VT, FF, CR, SP, NBSP, U+1680, U+2000..U+200A, U+2028, U+2029, U+202F,
  U+205F, U+3000 and U+FEFF. The regular expression class \<open>\s\<close> is the same set.
\<close>

definition isWhiteSpace :: "jschar \<Rightarrow> bool" where
  "isWhiteSpace c =
     ((9 \<le> c \<and> c \<le> 13) \<or> c = 32 \<or> c = 160 \<or> c = 5760 \<or> (8192 \<le> c \<and> c \<le> 8202)
      \<or> c = 8232 \<or> c = 8233 \<or> c = 8239 \<or> c = 8287 \<or> c = 12288 \<or> c = 65279)"

definition trim :: "jsstring \<Rightarrow> jsstring" where
  "trim s = rev (dropWhile isWhiteSpace (rev (dropWhile isWhiteSpace s)))"

text \<open>\<open>s.substring(0, n)\<close> is \<open>take n s\<close>.\<close>

text \<open>\<open>text.split('\n')\<close>: the pieces between line feeds; the empty string gives one empty piece.\<close>

fun splitLines :: "jsstring \<Rightarrow> jsstring list" where
  "splitLines [] = [ [] ]"
| "splitLines (c # cs) =
     (if c = 10 then [] # splitLines cs
      else (case splitLines cs of
              [] \<Rightarrow> [ [c] ]
            | l # ls \<Rightarrow> (c # l) # ls))"

text \<open>
  \<open>String.prototype.toLowerCase\<close>. On a string of ASCII code units it maps \<open>A..Z\<close> to
  \<open>a..z\<close> and nothing else; on any other string it follows the Unicode case tables, which
  are taken as the parameter \<open>unicodeLower\<close>.
\<close>

definition asciiLower :: "jschar \<Rightarrow> jschar" where
  "asciiLower c = (if 65 \<le> c \<and> c \<le> 90 then c + 32 else c)"

definition toLowerCase :: "(jsstring \<Rightarrow> jsstring) \<Rightarrow> jsstring \<Rightarrow> jsstring" where
  "toLowerCase unicodeLower s =
     (if list_all (\<lambda>c. c < 128) s then map asciiLower s else unicodeLower s)"

text \<open>The decimal digits of an array index, as the template literal \<open>${index}\<close> prints it.\<close>

fun decimal :: "nat \<Rightarrow> jsstring" where
  "decimal n = (if n < 10 then [48 + n] else decimal (n div 10) @ [48 + n mod 10])"

declare decimal.simps [simp del]


section \<open>Regular expressions\<close>

text \<open>
  The fragment of ECMAScript patterns that the source uses. A position in the subject is
  the code unit before it (none at the start) and the rest of the subject from it on.
  \<open>ends ic r p s\<close> lists the positions at which a match of \<open>r\<close> that starts at \<open>(p, s)\<close>
  can end, in the order in which the backtracking matcher tries them (left alternative
  first, greedy quantifiers longest first); the matcher takes the first. \<open>ic\<close> is the
  \<open>i\<close> flag.
\<close>

datatype regex =
    Lit jsstring            \<comment> \<open>a sequence of pattern characters\<close>
  | Digit                   \<comment> \<open>\<open>\d\<close>\<close>
  | Space                   \<comment> \<open>\<open>\s\<close>\<close>
  | WordB                   \<comment> \<open>\<open>\b\<close>\<close>
  | Seq regex regex
  | Alt regex regex         \<comment> \<open>\<open>a|b\<close>\<close>
  | Opt regex               \<comment> \<open>\<open>a?\<close>\<close>
  | Star regex              \<comment> \<open>\<open>a*\<close>\<close>

type_synonym position = "jschar option \<times> jsstring"

definition isDigit :: "jschar \<Rightarrow> bool" where
  "isDigit c = (48 \<le> c \<and> c \<le> 57)"

text \<open>\<open>\w\<close> without the \<open>u\<close> flag: \<open>[A-Za-z0-9_]\<close>.\<close>

definition isWordChar :: "jschar \<Rightarrow> bool" where
  "isWordChar c = ((97 \<le> c \<and> c \<le> 122) \<or> (65 \<le> c \<and> c \<le> 90) \<or> isDigit c \<or> c = 95)"

text \<open>\<open>\b\<close>: exactly one of the code units before and after the position is a word character.\<close>

definition isWordBoundary :: "jschar option \<Rightarrow> jsstring \<Rightarrow> bool" where
  "isWordBoundary p s =
     ((case p of None \<Rightarrow> False | Some c \<Rightarrow> isWordChar c)
       \<noteq> (case s of [] \<Rightarrow> False | c # _ \<Rightarrow> isWordChar c))"

text \<open>
  Canonicalize of the \<open>i\<close> flag. Without the \<open>u\<close> flag a code unit is compared through its
  upper case, except that a non-ASCII code unit is never mapped to an ASCII one. Every
  character of the source's patterns is ASCII, so a subject code unit equals a pattern
  character up to case exactly when it is that ASCII letter in either case; the upper
  case of the other code units never meets a pattern character and is left out.
\<close>

definition canonicalize :: "bool \<Rightarrow> jschar \<Rightarrow> jschar" where
  "canonicalize ic c = (if ic \<and> 97 \<le> c \<and> c \<le> 122 then c - 32 else c)"

text \<open>
  A quantified pattern does not iterate on an empty match (the matcher's empty check):
  an iteration must end at a later position, one with a shorter rest.
\<close>

function ends :: "bool \<Rightarrow> regex \<Rightarrow> jschar option \<Rightarrow> jsstring \<Rightarrow> position list" where
  "ends ic (Lit []) p s = [(p, s)]"
| "ends ic (Lit (x # w)) p [] = []"
| "ends ic (Lit (x # w)) p (c # s) =
     (if canonicalize ic c = canonicalize ic x then ends ic (Lit w) (Some c) s else [])"
| "ends ic Digit p [] = []"
| "ends ic Digit p (c # s) = (if isDigit c then [(Some c, s)] else [])"
| "ends ic Space p [] = []"
| "ends ic Space p (c # s) = (if isWhiteSpace c then [(Some c, s)] else [])"
| "ends ic WordB p s = (if isWordBoundary p s then [(p, s)] else [])"
| "ends ic (Seq a b) p s = concat (map (\<lambda>(p', s'). ends ic b p' s') (ends ic a p s))"
| "ends ic (Alt a b) p s = ends ic a p s @ ends ic b p s"
| "ends ic (Opt a) p s =
     filter (\<lambda>(p', s'). length s' < length s) (ends ic a p s) @ [(p, s)]"
| "ends ic (Star a) p s =
     concat (map (\<lambda>(p', s'). if length s' < length s then ends ic (Star a) p' s' else [])
                 (ends ic a p s)) @ [(p, s)]"
  by pat_completeness auto
termination
  by (relation "(\<lambda>(ic, r, p, s). size r) <*mlex*> measure (\<lambda>(ic, r, p, s). length s)")
     (auto simp: wf_mlex mlex_less mlex_leq)

text \<open>Derived forms: \<open>a+\<close>, \<open>a{n}\<close>, \<open>a{n,m}\<close>, a sequence and an alternation of several patterns.\<close>

definition Plus :: "regex \<Rightarrow> regex" where
  "Plus a = Seq a (Star a)"

fun exactly :: "nat \<Rightarrow> regex \<Rightarrow> regex" where
  "exactly 0 a = Lit []"
| "exactly (Suc n) a = Seq a (exactly n a)"

fun upTo :: "nat \<Rightarrow> regex \<Rightarrow> regex" where
  "upTo 0 a = Lit []"
| "upTo (Suc n) a = Opt (Seq a (upTo n a))"

definition between :: "nat \<Rightarrow> nat \<Rightarrow> regex \<Rightarrow> regex" where
  "between n m a = Seq (exactly n a) (upTo (m - n) a)"

fun seqs :: "regex list \<Rightarrow> regex" where
  "seqs [] = Lit []"
| "seqs [r] = r"
| "seqs (r # rs) = Seq r (seqs rs)"

fun alts :: "regex list \<Rightarrow> regex" where
  "alts [] = Lit []"
| "alts [r] = r"
| "alts (r # rs) = Alt r (alts rs)"

text \<open>
  \<open>RegExp.prototype.exec\<close> on a pattern without the \<open>g\<close> flag tries the start positions
  from the left and stops at the first one with a match; the match is the one the matcher
  reaches first there. \<open>text.match(re)\<close> gives the matched substring as element 0, or null;
  \<open>re.test(text)\<close> says whether there is a match.
\<close>

fun exec :: "bool \<Rightarrow> regex \<Rightarrow> jschar option \<Rightarrow> jsstring \<Rightarrow> jsstring option" where
  "exec ic r p [] = (case ends ic r p [] of [] \<Rightarrow> None | e # _ \<Rightarrow> Some [])"
| "exec ic r p (c # s) =
     (case ends ic r p (c # s) of
        [] \<Rightarrow> exec ic r (Some c) s
      | e # _ \<Rightarrow> Some (take (length (c # s) - length (snd e)) (c # s)))"

definition jsMatch :: "bool \<Rightarrow> regex \<Rightarrow> jsstring \<Rightarrow> jsstring option" where
  "jsMatch ic r t = exec ic r None t"

definition jsTest :: "bool \<Rightarrow> regex \<Rightarrow> jsstring \<Rightarrow> bool" where
  "jsTest ic r t = (exec ic r None t \<noteq> None)"


section \<open>The patterns of processContent\<close>

definition monthNames :: "string list" where
  "monthNames = [''January'', ''February'', ''March'', ''April'', ''May'', ''June'', ''July'',
                 ''August'', ''September'', ''October'', ''November'', ''December'']"

text \<open>\<open>/\b(January|...|December)\s+\d{1,2},?\s+\d{4}\b/i\<close>\<close>

definition longDate :: regex where
  "longDate = seqs [WordB, alts (map (\<lambda>m. Lit (js m)) monthNames),
                    Plus Space, between 1 2 Digit, Opt (Lit (js '','')), Plus Space,
                    exactly 4 Digit, WordB]"

text \<open>\<open>/\b\d{1,2}\/\d{1,2}\/\d{4}\b/\<close>\<close>

definition slashDate :: regex where
  "slashDate = seqs [WordB, between 1 2 Digit, Lit (js ''/''), between 1 2 Digit, Lit (js ''/''),
                     exactly 4 Digit, WordB]"

text \<open>\<open>/\b\d{4}-\d{2}-\d{2}\b/\<close>\<close>

definition isoDate :: regex where
  "isoDate = seqs [WordB, exactly 4 Digit, Lit (js ''-''), exactly 2 Digit, Lit (js ''-''),
                   exactly 2 Digit, WordB]"

definition updateKeywords :: "string list" where
  "updateKeywords = [''new'', ''update'', ''release'', ''feature'', ''improvement'', ''launch'',
               ''announce'', ''version'', ''fix'', ''enhancement'']"

text \<open>\<open>/\b(new|update|release|feature|improvement|launch|announce|version|fix|enhancement)\b/i\<close>\<close>

definition updateWords :: regex where
  "updateWords = seqs [WordB, alts (map (\<lambda>w. Lit (js w)) updateKeywords),
                       WordB]"


section \<open>The data of the scanner\<close>

text \<open>
  The raw record of one matched element, the update item that \<open>processContent\<close> emits
  and the result of one competitor. The fields \<open>text\<close> and \<open>id\<close> of the source are
  \<open>rawText\<close> and \<open>itemId\<close> here, and the \<open>competitor\<close>, \<open>url\<close> and \<open>error\<close> of a result
  are \<open>resultCompetitor\<close>, \<open>resultUrl\<close> and \<open>resultError\<close>. The time stamps \<open>extractedAt\<close> and
  \<open>scrapedAt\<close> read the wall clock and are left out.
\<close>

record rawContentRecord =
  rawText :: jsstring
  html :: "jsstring option"
  tagName :: jsstring
  className :: jsstring

record updateItem =
  itemId :: jsstring
  competitor :: jsstring
  title :: jsstring
  content :: jsstring
  fullContent :: jsstring
  extractedDate :: "jsstring option"
  isLikelyUpdate :: bool
  contentLength :: nat


record target =
  name :: jsstring
  url :: jsstring
  selector :: jsstring
  fallbackSelectors :: "jsstring list"

text \<open>\<open>this.competitors\<close>, in the order in which \<open>Object.keys\<close> lists it.\<close>

definition competitors :: "(jsstring \<times> target) list" where
  "competitors =
     [(js ''braze'',
       \<lparr>name = js ''Braze'',
        url = js ''https://www.braze.com/docs/help/release_notes'',
        selector = js ''.release-note, .changelog-entry, [data-testid=\"release-note\"], .content-section'',
        fallbackSelectors = [js ''article'', js ''.markdown-body'', js ''.content'', js ''main'']\<rparr>),
      (js ''iterable'',
       \<lparr>name = js ''Iterable'',
        url = js ''https://support.iterable.com/hc/en-us/articles/33302033277332-2025-Release-Notes'',
        selector = js ''.article-body, .article-content, .zendesk-article'',
        fallbackSelectors = [js ''.article-body'', js ''article'', js ''.content'', js ''main'']\<rparr>),
      (js ''klaviyo'',
       \<lparr>name = js ''Klaviyo'',
        url = js ''https://www.klaviyo.com/whats-new'',
        selector = js ''.whats-new-item, .update-card, .release-item'',
        fallbackSelectors = [js ''.card'', js ''.update'', js ''article'', js ''.content'', js ''main'']\<rparr>)]"


section \<open>extractTitle and processContent\<close>

definition extractTitle :: "jsstring \<Rightarrow> jsstring" where
  "extractTitle text =
     (let lines = filter (\<lambda>line. trim line \<noteq> []) (splitLines text) in
      if length lines = 0 then js ''No title''
      else (let title = trim (lines ! 0) in
            if length title > 100 then take 100 title @ js ''...'' else title))"

text \<open>
  \<open>text.match(long) || text.match(slash) || text.match(iso)\<close>, then element 0 of the
  match or null.
\<close>

definition dateMatch :: "jsstring \<Rightarrow> jsstring option" where
  "dateMatch text =
     (case jsMatch True longDate text of
        Some m \<Rightarrow> Some m
      | None \<Rightarrow> (case jsMatch False slashDate text of
                   Some m \<Rightarrow> Some m
                 | None \<Rightarrow> jsMatch False isoDate text))"

text \<open>The template literal \<open>`${competitorName.toLowerCase()}_${index}`\<close>.\<close>

definition generateId :: "(jsstring \<Rightarrow> jsstring) \<Rightarrow> jsstring \<Rightarrow> nat \<Rightarrow> jsstring" where
  "generateId unicodeLower competitorName index =
     toLowerCase unicodeLower competitorName @ js ''_'' @ decimal index"

text \<open>The object that the callback pushes for a record that passes the filter.\<close>

definition makeItem :: "(jsstring \<Rightarrow> jsstring) \<Rightarrow> jsstring \<Rightarrow> nat \<Rightarrow> jsstring \<Rightarrow> updateItem" where
  "makeItem unicodeLower competitorName index text =
     \<lparr>itemId = generateId unicodeLower competitorName index,
      competitor = competitorName,
      title = extractTitle text,
      content = take 500 text @ (if length text > 500 then js ''...'' else []),
      fullContent = text,
      extractedDate = dateMatch text,
      isLikelyUpdate = jsTest True updateWords text,
      contentLength = length text\<rparr>"

text \<open>
  The \<open>forEach\<close> of processContent: \<open>index\<close> counts every record, \<open>processed\<close> and
  \<open>seenTexts\<close> are the array and the Set that the callback updates.
\<close>

fun forEachRecord ::
  "(jsstring \<Rightarrow> jsstring) \<Rightarrow> jsstring \<Rightarrow> rawContentRecord list \<Rightarrow> nat \<Rightarrow>
   updateItem list \<Rightarrow> jsstring set \<Rightarrow> updateItem list" where
  "forEachRecord unicodeLower competitorName [] index processed seenTexts = processed"
| "forEachRecord unicodeLower competitorName (item # rest) index processed seenTexts =
     (let text = trim (rawText item) in
      if length text < 30 \<or> take 100 text \<in> seenTexts
      then forEachRecord unicodeLower competitorName rest (index + 1) processed seenTexts
      else forEachRecord unicodeLower competitorName rest (index + 1)
             (processed @ [makeItem unicodeLower competitorName index text])
             (insert (take 100 text) seenTexts))"

definition compareItems :: "updateItem \<Rightarrow> updateItem \<Rightarrow> int" where
  "compareItems a b =
     (if isLikelyUpdate a \<and> \<not> isLikelyUpdate b then - 1
      else if \<not> isLikelyUpdate a \<and> isLikelyUpdate b then 1
      else int (contentLength b) - int (contentLength a))"

text \<open>
  \<open>Array.prototype.sort\<close> with a comparator: the sort is stable, so with a comparator
  that is a consistent ordering the result is the one that insertion gives, where an
  element goes before the first one it does not come after.
\<close>

fun insertSorted :: "('a \<Rightarrow> 'a \<Rightarrow> int) \<Rightarrow> 'a \<Rightarrow> 'a list \<Rightarrow> 'a list" where
  "insertSorted cmp x [] = [x]"
| "insertSorted cmp x (y # ys) =
     (if cmp x y \<le> 0 then x # y # ys else y # insertSorted cmp x ys)"

fun jsSort :: "('a \<Rightarrow> 'a \<Rightarrow> int) \<Rightarrow> 'a list \<Rightarrow> 'a list" where
  "jsSort cmp [] = []"
| "jsSort cmp (x # xs) = insertSorted cmp x (jsSort cmp xs)"

text \<open>The array \<open>processed\<close> as it stands before the sort.\<close>

definition beforeSort ::
  "(jsstring \<Rightarrow> jsstring) \<Rightarrow> rawContentRecord list \<Rightarrow> jsstring \<Rightarrow> updateItem list" where
  "beforeSort unicodeLower rawContent competitorName =
     forEachRecord unicodeLower competitorName rawContent 0 [] {}"

definition processContent ::
  "(jsstring \<Rightarrow> jsstring) \<Rightarrow> rawContentRecord list \<Rightarrow> jsstring \<Rightarrow> updateItem list" where
  "processContent unicodeLower rawContent competitorName =
     jsSort compareItems (beforeSort unicodeLower rawContent competitorName)"


section \<open>Extraction from the page\<close>

text \<open>
  What the browser shows of an element, and an element handle: \<open>page.evaluate\<close> on a
  handle either reads the element or throws.
\<close>

record domElement =
  innerText :: "jsstring option"
  innerHTML :: "jsstring option"
  elementTag :: jsstring
  elementClass :: jsstring

datatype jsError = Error (message: jsstring)

datatype elementHandle = Handle domElement | Stale jsError

fun evaluateElement :: "elementHandle \<Rightarrow> jsError + rawContentRecord" where
  "evaluateElement (Stale e) = Inl e"
| "evaluateElement (Handle el) =
     Inr \<lparr>rawText = (case innerText el of None \<Rightarrow> [] | Some t \<Rightarrow> trim t),
          html = Some (case innerHTML el of None \<Rightarrow> [] | Some h \<Rightarrow> take 1000 h),
          tagName = elementTag el,
          className = elementClass el\<rparr>"

function extractLoop :: "elementHandle list \<Rightarrow> nat \<Rightarrow> rawContentRecord list \<Rightarrow> rawContentRecord list" where
  "extractLoop elements i collected =
     (if i < min (length elements) 20
      then (case evaluateElement (elements ! i) of
              Inl e \<Rightarrow> extractLoop elements (i + 1) collected
            | Inr item \<Rightarrow>
                if rawText item \<noteq> [] \<and> length (rawText item) > 20
                then extractLoop elements (i + 1) (collected @ [item])
                else extractLoop elements (i + 1) collected)
      else collected)"
  by pat_completeness auto
termination
  by (relation "measure (\<lambda>(elements, i, collected). min (length elements) 20 - i)") auto

declare extractLoop.simps [simp del]

definition extractContentFromElements :: "elementHandle list \<Rightarrow> rawContentRecord list" where
  "extractContentFromElements elements = extractLoop elements 0 []"


text \<open>
  A page as scrapeCompetitor uses it: the outcome of each awaited call, \<open>None\<close> or \<open>Inr\<close>
  when it returns and the error when it throws. \<open>query\<close> is \<open>page.$$\<close>, \<open>containers\<close> the
  \<open>querySelectorAll\<close> of extractGeneralContent.
\<close>

record page =
  setUserAgent :: "jsError option"
  goto :: "jsstring \<Rightarrow> jsError option"
  waitForTimeout :: "jsError option"
  query :: "jsstring \<Rightarrow> jsError + elementHandle list"
  containers :: "jsError + domElement list"
  close :: "jsError option"




section \<open>scrapeCompetitor and run\<close>






section \<open>Notions for the statements\<close>

text \<open>
  The positions and trimmed texts of the records that the loop of processContent emits,
  for a loop that starts at \<open>index\<close> with the fingerprints \<open>seenTexts\<close>.
\<close>

fun kept :: "rawContentRecord list \<Rightarrow> nat \<Rightarrow> jsstring set \<Rightarrow> (nat \<times> jsstring) list" where
  "kept [] index seenTexts = []"
| "kept (item # rest) index seenTexts =
     (let text = trim (rawText item) in
      if length text < 30 \<or> take 100 text \<in> seenTexts
      then kept rest (index + 1) seenTexts
      else (index, text) # kept rest (index + 1) (insert (take 100 text) seenTexts))"

text \<open>Reading a decimal numeral back, to tell the generated ids apart.\<close>

definition readDecimal :: "jsstring \<Rightarrow> nat" where
  "readDecimal s = foldl (\<lambda>a c. 10 * a + (c - 48)) 0 s"

text \<open>The sort key of compareItems, and the fingerprint of a record of a batch.\<close>

definition sameKey :: "bool \<Rightarrow> nat \<Rightarrow> updateItem \<Rightarrow> bool" where
  "sameKey f n item = (isLikelyUpdate item = f \<and> contentLength item = n)"

definition fingerprint :: "rawContentRecord list \<Rightarrow> nat \<Rightarrow> jsstring" where
  "fingerprint rawContent k = take 100 (trim (rawText (rawContent ! k)))"

text \<open>
  The record that targeted extraction takes from an element handle: none when
  \<open>page.evaluate\<close> throws on it, and none when the trimmed visible text has at most 20
  code units.
\<close>

definition visibleText :: "domElement \<Rightarrow> jsstring" where
  "visibleText el = (case innerText el of None \<Rightarrow> [] | Some t \<Rightarrow> trim t)"

fun recordOf :: "elementHandle \<Rightarrow> rawContentRecord option" where
  "recordOf (Stale e) = None"
| "recordOf (Handle el) =
     (if 20 < length (visibleText el)
      then Some \<lparr>rawText = visibleText el,
                 html = Some (case innerHTML el of None \<Rightarrow> [] | Some h \<Rightarrow> take 1000 h),
                 tagName = elementTag el, className = elementClass el\<rparr>
      else None)"


text \<open>
  What a match of a pattern at a position of a text is, in terms of the matcher's ends:
  \<open>matchesAt\<close> says that the pattern matches from index \<open>i\<close>, \<open>matchAt\<close> is the substring
  that the matcher takes there, and \<open>isFirstMatch\<close> says that \<open>m\<close> is that substring at the
  leftmost index with a match.
\<close>

definition codeUnitBefore :: "jschar option \<Rightarrow> jsstring \<Rightarrow> nat \<Rightarrow> jschar option" where
  "codeUnitBefore p t i = (if i = 0 then p else Some (t ! (i - 1)))"





text \<open>
  A text contains a word as a whole word, without regard to the case of ASCII letters:
  the word stands somewhere in the text, up to case, with no word character directly
  before it and none directly after it.
\<close>

definition equalIgnoringCase :: "jsstring \<Rightarrow> jsstring \<Rightarrow> bool" where
  "equalIgnoringCase a b = (map asciiLower a = map asciiLower b)"

definition containsWholeWord :: "jsstring \<Rightarrow> jsstring \<Rightarrow> bool" where
  "containsWholeWord t w =
     (\<exists>pre m post. t = pre @ m @ post \<and> equalIgnoringCase m w
        \<and> (pre = [] \<or> \<not> isWordChar (last pre))
        \<and> (post = [] \<or> \<not> isWordChar (hd post)))"


section \<open>Sample inputs\<close>

definition textRecord :: "string \<Rightarrow> rawContentRecord" where
  "textRecord s = \<lparr>rawText = js s, html = None, tagName = js ''DIV'', className = []\<rparr>"

definition batch1 :: "rawContentRecord list" where
  "batch1 = [textRecord ''  Minor tweaks to the settings page  '',
             textRecord ''too short'',
             textRecord ''New: dark mode ships on 2025-01-05'',
             textRecord ''Other tweaks to the billing page.'']"

definition batch2 :: "rawContentRecord list" where
  "batch2 = [textRecord '' Twenty-nine characters, total  '',
             textRecord ''  Thirty characters and no fewer '']"

definition batch3 :: "rawContentRecord list" where
  "batch3 = [textRecord ''Release notes for the spring update'',
             textRecord ''Nothing to see'',
             textRecord ''  Release notes for the spring update  '']"

definition titleText :: jsstring where
  "titleText = js ''  What is new  '' @ [10] @ js ''Second line''"

definition batch4 :: "rawContentRecord list" where
  "batch4 = [\<lparr>rawText = js ''No title'' @ [10] @ js ''Release notes for the spring update'',
              html = None, tagName = js ''DIV'', className = []\<rparr>]"

definition textElement :: "string \<Rightarrow> domElement" where
  "textElement s = \<lparr>innerText = Some (js s), innerHTML = Some (js s),
                    elementTag = js ''DIV'', elementClass = []\<rparr>"






definition batch5 :: "rawContentRecord list" where
  "batch5 = [textRecord ''Read our newsletter for the updates'',
             textRecord ''A NEW dashboard, with renewed looks'']"

definition scenarioText :: jsstring where
  "scenarioText = js ''New Feature Release'' @ [10]
                  @ js ''We launched dark mode support today. January 5, 2025''"


section \<open>The loop of processContent\<close>

lemma forEachRecord_kept:
  "forEachRecord ul nm raw index acc seen =
     acc @ map (\<lambda>(i, t). makeItem ul nm i t) (kept raw index seen)"
  by (induction raw arbitrary: index acc seen) (simp_all add: Let_def)

lemma beforeSort_kept:
  "beforeSort ul raw nm = map (\<lambda>(i, t). makeItem ul nm i t) (kept raw 0 {})"
  by (simp add: beforeSort_def forEachRecord_kept)

lemma kept_sound:
  "(i, t) \<in> set (kept raw index seen) \<Longrightarrow>
     index \<le> i \<and> i < index + length raw \<and> t = trim (rawText (raw ! (i - index)))
     \<and> 30 \<le> length t \<and> take 100 t \<notin> seen"
proof (induction raw arbitrary: index seen)
  case Nil
  then show ?case by simp
next
  case (Cons item rest)
  let ?text = "trim (rawText item)"
  show ?case
  proof (cases "length ?text < 30 \<or> take 100 ?text \<in> seen")
    case True
    with Cons.prems have "(i, t) \<in> set (kept rest (Suc index) seen)"
      by (simp add: Let_def)
    from Cons.IH[OF this] show ?thesis by (auto simp: nth_Cons')
  next
    case False
    with Cons.prems have "(i, t) = (index, ?text)
        \<or> (i, t) \<in> set (kept rest (Suc index) (insert (take 100 ?text) seen))"
      by (auto simp: Let_def)
    then show ?thesis
    proof
      assume "(i, t) = (index, ?text)"
      with False show ?thesis by simp
    next
      assume "(i, t) \<in> set (kept rest (Suc index) (insert (take 100 ?text) seen))"
      from Cons.IH[OF this] show ?thesis by (auto simp: nth_Cons')
    qed
  qed
qed

lemma kept_indices_increasing:
  "sorted_wrt (<) (map fst (kept raw index seen))"
proof (induction raw arbitrary: index seen)
  case Nil
  then show ?case by simp
next
  case (Cons item rest)
  have "\<And>s p. p \<in> set (kept rest (Suc index) s) \<Longrightarrow> index < fst p"
    using kept_sound[of _ _ rest "Suc index"] by (metis Suc_le_eq prod.collapse)
  with Cons.IH show ?case by (auto simp: Let_def)
qed

lemma kept_fingerprints_distinct:
  "distinct (map (\<lambda>p. take 100 (snd p)) (kept raw index seen))"
proof (induction raw arbitrary: index seen)
  case Nil
  then show ?case by simp
next
  case (Cons item rest)
  let ?fp = "take 100 (trim (rawText item))"
  have "?fp \<notin> (\<lambda>p. take 100 (snd p)) ` set (kept rest (Suc index) (insert ?fp seen))"
  proof
    assume "?fp \<in> (\<lambda>p. take 100 (snd p)) ` set (kept rest (Suc index) (insert ?fp seen))"
    then obtain i t where "(i, t) \<in> set (kept rest (Suc index) (insert ?fp seen))"
      and "?fp = take 100 t" by auto
    with kept_sound[OF this(1)] show False by simp
  qed
  with Cons.IH show ?case by (simp add: Let_def)
qed

lemma kept_complete:
  "k < length raw \<Longrightarrow> 30 \<le> length (trim (rawText (raw ! k))) \<Longrightarrow>
   take 100 (trim (rawText (raw ! k))) \<notin> seen \<Longrightarrow>
   (\<forall>j<k. take 100 (trim (rawText (raw ! j))) \<noteq> take 100 (trim (rawText (raw ! k)))) \<Longrightarrow>
   (index + k, trim (rawText (raw ! k))) \<in> set (kept raw index seen)"
proof (induction raw arbitrary: index seen k)
  case Nil
  then show ?case by simp
next
  case (Cons item rest)
  show ?case
  proof (cases k)
    case 0
    with Cons.prems show ?thesis by (simp add: Let_def)
  next
    case (Suc k')
    let ?fp = "take 100 (trim (rawText item))"
    from Cons.prems Suc have a: "k' < length rest" "30 \<le> length (trim (rawText (rest ! k')))"
      and b: "take 100 (trim (rawText (rest ! k'))) \<notin> seen" by simp_all
    from Cons.prems(4) Suc have c: "?fp \<noteq> take 100 (trim (rawText (rest ! k')))"
      by (metis nth_Cons_0 nth_Cons_Suc zero_less_Suc)
    from Cons.prems(4) Suc
    have d: "\<forall>j<k'. take 100 (trim (rawText (rest ! j))) \<noteq> take 100 (trim (rawText (rest ! k')))"
      by (metis Suc_less_eq nth_Cons_Suc)
    have "\<And>s. take 100 (trim (rawText (rest ! k'))) \<notin> s \<Longrightarrow>
        (Suc index + k', trim (rawText (rest ! k'))) \<in> set (kept rest (Suc index) s)"
      using Cons.IH[OF a(1) a(2) _ d] by blast
    with b c Suc show ?thesis by (auto simp: Let_def)
  qed
qed

lemma kept_seen_rejected:
  "(i, t) \<in> set (kept raw index seen) \<Longrightarrow> take 100 t \<notin> seen"
  using kept_sound by blast

lemma kept_later_duplicate:
  "j < k \<Longrightarrow> k < length raw \<Longrightarrow>
   take 100 (trim (rawText (raw ! j))) = take 100 (trim (rawText (raw ! k))) \<Longrightarrow>
   (index + k, t) \<notin> set (kept raw index seen)"
proof (induction raw arbitrary: index seen j k)
  case Nil
  then show ?case by simp
next
  case (Cons item rest)
  from Cons.prems obtain k' where k: "k = Suc k'" "k' < length rest"
    by (cases k) auto
  let ?fpk = "take 100 (trim (rawText (rest ! k')))"
  show ?case
  proof (cases j)
    case 0
    let ?text = "trim (rawText item)"
    from Cons.prems 0 k have fp: "take 100 ?text = ?fpk" by simp
    show ?thesis
    proof
      assume m: "(index + k, t) \<in> set (kept (item # rest) index seen)"
      from kept_sound[OF m] k
      have t: "t = trim (rawText (rest ! k'))" "30 \<le> length t" "take 100 t \<notin> seen"
        by auto
      show False
      proof (cases "length ?text < 30 \<or> take 100 ?text \<in> seen")
        case True
        then show False
        proof
          assume "length ?text < 30"
          then have "length (take 100 ?text) < 30" by simp
          with fp t show False by simp
        next
          assume "take 100 ?text \<in> seen"
          with fp t show False by simp
        qed
      next
        case False
        with m k have "(Suc index + k', t) \<in> set (kept rest (Suc index) (insert (take 100 ?text) seen))"
          by (auto simp: Let_def)
        from kept_sound[OF this] fp t show False by simp
      qed
    qed
  next
    case (Suc j')
    with Cons.prems k have "j' < k'"
      and "take 100 (trim (rawText (rest ! j'))) = ?fpk" by simp_all
    from Cons.IH[OF this(1) k(2) this(2)]
    have "\<And>s. (Suc index + k', t) \<notin> set (kept rest (Suc index) s)" .
    moreover have "index + k \<noteq> index" using k by simp
    ultimately show ?thesis using k by (auto simp: Let_def)
  qed
qed


section \<open>Sorting\<close>

lemma set_insertSorted: "set (insertSorted cmp x ys) = insert x (set ys)"
  by (induction ys) auto

lemma set_jsSort: "set (jsSort cmp xs) = set xs"
  by (induction xs) (simp_all add: set_insertSorted)

lemma distinct_map_insertSorted:
  "distinct (map f (insertSorted cmp x ys)) = (f x \<notin> f ` set ys \<and> distinct (map f ys))"
  by (induction ys) (auto simp: set_insertSorted)

lemma distinct_map_jsSort: "distinct (map f (jsSort cmp xs)) = distinct (map f xs)"
  by (induction xs) (simp_all add: distinct_map_insertSorted set_jsSort)

lemma compareItems_le:
  "(compareItems a b \<le> 0) =
     ((isLikelyUpdate a \<and> \<not> isLikelyUpdate b)
      \<or> (isLikelyUpdate a = isLikelyUpdate b \<and> contentLength b \<le> contentLength a))"
  by (auto simp: compareItems_def)

lemma compareItems_trans:
  "compareItems a b \<le> 0 \<Longrightarrow> compareItems b c \<le> 0 \<Longrightarrow> compareItems a c \<le> 0"
  unfolding compareItems_le by auto

lemma compareItems_total: "\<not> compareItems a b \<le> 0 \<Longrightarrow> compareItems b a \<le> 0"
  unfolding compareItems_le by auto

lemma sorted_insertSorted:
  "sorted_wrt (\<lambda>a b. compareItems a b \<le> 0) ys \<Longrightarrow>
   sorted_wrt (\<lambda>a b. compareItems a b \<le> 0) (insertSorted compareItems x ys)"
proof (induction ys)
  case Nil
  then show ?case by simp
next
  case (Cons y ys)
  show ?case
  proof (cases "compareItems x y \<le> 0")
    case True
    with Cons.prems have "\<forall>z\<in>set (y # ys). compareItems x z \<le> 0"
      by (auto intro: compareItems_trans)
    with True Cons.prems show ?thesis by simp
  next
    case False
    then have "compareItems y x \<le> 0" by (rule compareItems_total)
    with False Cons show ?thesis by (simp add: set_insertSorted)
  qed
qed

lemma sorted_jsSort: "sorted_wrt (\<lambda>a b. compareItems a b \<le> 0) (jsSort compareItems xs)"
  by (induction xs) (simp_all add: sorted_insertSorted)

lemma filter_insertSorted:
  "filter (sameKey f n) (insertSorted compareItems x ys) =
     (if sameKey f n x then x # filter (sameKey f n) ys else filter (sameKey f n) ys)"
proof (induction ys)
  case Nil
  then show ?case by simp
next
  case (Cons y ys)
  have "sameKey f n x \<Longrightarrow> sameKey f n y \<Longrightarrow> compareItems x y \<le> 0"
    by (simp add: sameKey_def compareItems_le)
  with Cons show ?case by auto
qed

lemma filter_jsSort:
  "filter (sameKey f n) (jsSort compareItems xs) = filter (sameKey f n) xs"
  by (induction xs) (simp_all add: filter_insertSorted)


section \<open>Generated ids\<close>

lemma readDecimal_decimal: "readDecimal (decimal n) = n"
proof (induction n rule: decimal.induct)
  case (1 n)
  show ?case
  proof (cases "n < 10")
    case True
    then show ?thesis by (simp add: decimal.simps[of n] readDecimal_def)
  next
    case False
    with 1 have "readDecimal (decimal (n div 10)) = n div 10" by simp
    with False show ?thesis
      by (simp add: decimal.simps[of n] readDecimal_def)
  qed
qed

lemma decimal_inj: "decimal m = decimal n \<Longrightarrow> m = n"
  by (metis readDecimal_decimal)

lemma generateId_inj: "generateId ul nm i = generateId ul nm j \<Longrightarrow> i = j"
  by (simp add: generateId_def decimal_inj)

lemma makeItem_simps:
  "itemId (makeItem ul nm i t) = generateId ul nm i"
  "fullContent (makeItem ul nm i t) = t"
  "contentLength (makeItem ul nm i t) = length t"
  "competitor (makeItem ul nm i t) = nm"
  "title (makeItem ul nm i t) = extractTitle t"
  "extractedDate (makeItem ul nm i t) = dateMatch t"
  "isLikelyUpdate (makeItem ul nm i t) = jsTest True updateWords t"
  by (simp_all add: makeItem_def)


section \<open>What processContent emits\<close>

lemma set_processContent:
  "set (processContent ul raw nm) = (\<lambda>(i, t). makeItem ul nm i t) ` set (kept raw 0 {})"
  by (simp add: processContent_def set_jsSort beforeSort_kept)

lemma emitted_cases:
  assumes "item \<in> set (processContent ul raw nm)"
  obtains k where "k < length raw" and "item = makeItem ul nm k (trim (rawText (raw ! k)))"
    and "30 \<le> length (trim (rawText (raw ! k)))"
proof -
  from assms obtain i t where m: "(i, t) \<in> set (kept raw 0 {})" and "item = makeItem ul nm i t"
    by (auto simp: set_processContent)
  with kept_sound[OF m] that[of i] show ?thesis by auto
qed

lemma emitted_fresh:
  assumes "k < length raw" and "30 \<le> length (trim (rawText (raw ! k)))"
    and "\<forall>j<k. fingerprint raw j \<noteq> fingerprint raw k"
  shows "makeItem ul nm k (trim (rawText (raw ! k))) \<in> set (processContent ul raw nm)"
proof -
  from assms have "(0 + k, trim (rawText (raw ! k))) \<in> set (kept raw 0 {})"
    by (intro kept_complete) (simp_all add: fingerprint_def)
  then show ?thesis by (force simp: set_processContent)
qed

lemma not_emitted_short:
  assumes "k < length raw" and "length (trim (rawText (raw ! k))) < 30"
    and "item \<in> set (processContent ul raw nm)"
  shows "itemId item \<noteq> generateId ul nm k"
proof
  assume eq: "itemId item = generateId ul nm k"
  from assms(3) obtain k' where "item = makeItem ul nm k' (trim (rawText (raw ! k')))"
    and "30 \<le> length (trim (rawText (raw ! k')))" by (rule emitted_cases)
  with eq have "k' = k" by (auto simp: makeItem_simps dest: generateId_inj)
  with \<open>30 \<le> length (trim (rawText (raw ! k')))\<close> assms(2) show False by simp
qed

lemma not_emitted_duplicate:
  assumes "j < k" and "k < length raw" and "fingerprint raw j = fingerprint raw k"
    and "item \<in> set (processContent ul raw nm)"
  shows "itemId item \<noteq> generateId ul nm k"
proof
  assume eq: "itemId item = generateId ul nm k"
  from assms(4) obtain i t where m: "(i, t) \<in> set (kept raw 0 {})" and "item = makeItem ul nm i t"
    by (auto simp: set_processContent)
  with eq have "i = k" by (auto simp: makeItem_simps dest: generateId_inj)
  with m have "(0 + k, t) \<in> set (kept raw 0 {})" by simp
  moreover from assms have "(0 + k, t) \<notin> set (kept raw 0 {})"
    by (intro kept_later_duplicate[of j]) (simp_all add: fingerprint_def)
  ultimately show False by simp
qed

lemma distinct_ids: "distinct (map itemId (processContent ul raw nm))"
proof -
  have "map itemId (beforeSort ul raw nm) = map (generateId ul nm) (map fst (kept raw 0 {}))"
    by (simp add: beforeSort_kept makeItem_simps case_prod_unfold comp_def)
  moreover have "distinct (map fst (kept raw 0 {}))"
    using kept_indices_increasing[of raw 0 "{}"] by (simp add: strict_sorted_iff)
  moreover have "inj_on (generateId ul nm) (set (map fst (kept raw 0 {})))"
    by (rule inj_onI) (rule generateId_inj)
  ultimately have "distinct (map itemId (beforeSort ul raw nm))"
    by (simp only: distinct_map)
  then show ?thesis by (simp add: processContent_def distinct_map_jsSort)
qed

lemma distinct_fingerprints:
  "distinct (map (\<lambda>item. take 100 (fullContent item)) (processContent ul raw nm))"
proof -
  have "map (\<lambda>item. take 100 (fullContent item)) (beforeSort ul raw nm)
        = map (\<lambda>p. take 100 (snd p)) (kept raw 0 {})"
    by (simp add: beforeSort_kept makeItem_simps case_prod_unfold comp_def)
  then have "distinct (map (\<lambda>item. take 100 (fullContent item)) (beforeSort ul raw nm))"
    by (simp add: kept_fingerprints_distinct)
  then show ?thesis by (simp add: processContent_def distinct_map_jsSort)
qed

lemma beforeSort_in_input_order:
  "\<exists>ks. sorted_wrt (<) ks \<and> (\<forall>k\<in>set ks. k < length raw)
        \<and> beforeSort ul raw nm = map (\<lambda>k. makeItem ul nm k (trim (rawText (raw ! k)))) ks"
proof (intro exI conjI)
  show "sorted_wrt (<) (map fst (kept raw 0 {}))" by (rule kept_indices_increasing)
  show "\<forall>k\<in>set (map fst (kept raw 0 {})). k < length raw"
    using kept_sound[of _ _ raw 0 "{}"] by auto
  show "beforeSort ul raw nm
        = map (\<lambda>k. makeItem ul nm k (trim (rawText (raw ! k)))) (map fst (kept raw 0 {}))"
    using kept_sound[of _ _ raw 0 "{}"] by (auto simp: beforeSort_kept)
qed


section \<open>Evaluation on concrete batches\<close>

lemma exactly_2: "exactly 2 a = Seq a (Seq a (Lit []))"
  by (simp add: numeral_2_eq_2)

lemma exactly_4: "exactly 4 a = Seq a (Seq a (Seq a (Seq a (Lit []))))"
  by (simp add: eval_nat_numeral)

lemma decimal_digit: "n < 10 \<Longrightarrow> decimal n = [48 + n]"
  by (simp add: decimal.simps[of n])

lemmas regex_eval = jsMatch_def jsTest_def between_def js_def canonicalize_def Plus_def
  isWhiteSpace_def isDigit_def isWordChar_def isWordBoundary_def exactly_2 exactly_4
  longDate_def monthNames_def slashDate_def isoDate_def updateWords_def updateKeywords_def

lemmas item_eval = regex_eval trim_def processContent_def beforeSort_def makeItem_def generateId_def
  dateMatch_def extractTitle_def compareItems_def Let_def toLowerCase_def asciiLower_def
  decimal_digit

lemma batch1_out:
  "map (\<lambda>x. (itemId x, isLikelyUpdate x, contentLength x)) (processContent id batch1 (js ''Braze'')) =
    [(js ''braze_2'', True, 34), (js ''braze_0'', False, 33), (js ''braze_3'', False, 33)]"
  by (simp add: item_eval batch1_def textRecord_def)


section \<open>trim and split\<close>

lemma last_dropWhile: "dropWhile P xs \<noteq> [] \<Longrightarrow> last (dropWhile P xs) = last xs"
  by (induction xs) auto

lemma trim_ends:
  "trim s = [] \<or> (\<not> isWhiteSpace (hd (trim s)) \<and> \<not> isWhiteSpace (last (trim s)))"
proof (cases "trim s = []")
  case True
  then show ?thesis by simp
next
  case False
  let ?u = "dropWhile isWhiteSpace s"
  let ?v = "dropWhile isWhiteSpace (rev ?u)"
  from False have v: "?v \<noteq> []" by (simp add: trim_def)
  then have u: "?u \<noteq> []" by (metis dropWhile.simps(1) rev.simps(1))
  have "last (trim s) = hd ?v" using v by (simp add: trim_def last_rev)
  moreover have "\<not> isWhiteSpace (hd ?v)" using v by (rule hd_dropWhile)
  moreover have "hd (trim s) = last ?v" using v by (simp add: trim_def hd_rev)
  moreover have "last ?v = last (rev ?u)" using v by (rule last_dropWhile)
  moreover have "last (rev ?u) = hd ?u" using u by (simp add: last_rev)
  moreover have "\<not> isWhiteSpace (hd ?u)" using u by (rule hd_dropWhile)
  ultimately show ?thesis by simp
qed

lemma trim_id:
  assumes "s \<noteq> []" "\<not> isWhiteSpace (hd s)" "\<not> isWhiteSpace (last s)"
  shows "trim s = s"
proof -
  from assms have "dropWhile isWhiteSpace s = s" by (simp add: dropWhile_eq_self_iff)
  moreover from assms have "dropWhile isWhiteSpace (rev s) = rev s"
    by (simp add: dropWhile_eq_self_iff hd_rev)
  ultimately show ?thesis by (simp add: trim_def)
qed

lemma trim_Nil: "trim [] = []"
  by (simp add: trim_def)

lemma trim_idem: "trim (trim s) = trim s"
proof (cases "trim s = []")
  case True
  then show ?thesis by (simp add: trim_Nil)
next
  case False
  with trim_ends[of s] show ?thesis by (intro trim_id) simp_all
qed

lemma set_trim: "set (trim s) \<subseteq> set s"
proof -
  have "set (trim s) \<subseteq> set (dropWhile isWhiteSpace s)"
    unfolding trim_def using set_dropWhileD by fastforce
  also have "\<dots> \<subseteq> set s" using set_dropWhileD by fastforce
  finally show ?thesis .
qed

lemma length_trim: "length (trim s) \<le> length s"
proof -
  have "length (trim s) \<le> length (dropWhile isWhiteSpace s)"
    unfolding trim_def by (metis length_dropWhile_le length_rev)
  also have "\<dots> \<le> length s" by (rule length_dropWhile_le)
  finally show ?thesis .
qed

lemma trim_Cons_nonblank: "\<not> isWhiteSpace c \<Longrightarrow> trim (c # s) \<noteq> []"
proof -
  assume c: "\<not> isWhiteSpace c"
  have "dropWhile isWhiteSpace (rev s @ [c]) \<noteq> []"
    using c by (simp add: dropWhile_append)
  with c show ?thesis by (simp add: trim_def)
qed

lemma splitLines_not_Nil: "splitLines s \<noteq> []"
  by (induction s) (auto split: list.splits)

lemma splitLines_one_line: "10 \<notin> set s \<Longrightarrow> splitLines s = [s]"
  by (induction s) auto

lemma splitLines_no_line_feed: "l \<in> set (splitLines s) \<Longrightarrow> 10 \<notin> set l"
proof (induction s arbitrary: l)
  case Nil
  then show ?case by simp
next
  case (Cons c s)
  show ?case
  proof (cases "c = 10")
    case True
    with Cons show ?thesis by auto
  next
    case False
    obtain l' ls where ls: "splitLines s = l' # ls"
      using splitLines_not_Nil[of s] by (cases "splitLines s") auto
    with False Cons.prems have "l = c # l' \<or> l \<in> set ls" by auto
    with Cons.IH[of l'] Cons.IH[of l] ls False show ?thesis by auto
  qed
qed

lemma splitLines_first:
  "c \<noteq> 10 \<Longrightarrow> \<exists>l ls. splitLines (c # s) = (c # l) # ls"
  using splitLines_not_Nil[of s] by (cases "splitLines s") auto

lemma line_feed_is_space: "isWhiteSpace 10"
  by (simp add: isWhiteSpace_def)


section \<open>extractTitle\<close>

lemma extractTitle_no_line:
  "filter (\<lambda>line. trim line \<noteq> []) (splitLines text) = [] \<Longrightarrow> extractTitle text = js ''No title''"
  by (simp add: extractTitle_def)

lemma extractTitle_first_line:
  "filter (\<lambda>line. trim line \<noteq> []) (splitLines text) = l # ls \<Longrightarrow>
   extractTitle text = (if 100 < length (trim l) then take 100 (trim l) @ js ''...'' else trim l)"
  by (simp add: extractTitle_def)

lemma extractTitle_trimmed_line:
  assumes "10 \<notin> set t" "t \<noteq> []" "trim t = t" "length t \<le> 100"
  shows "extractTitle t = t"
  using assms by (simp add: extractTitle_def splitLines_one_line)

lemma extractTitle_No_title: "extractTitle (js ''No title'') = js ''No title''"
  by (rule extractTitle_trimmed_line) (simp_all add: js_def trim_def isWhiteSpace_def)

lemma extractTitle_idem:
  assumes "length (extractTitle text) < 100"
  shows "extractTitle (extractTitle text) = extractTitle text"
proof (cases "filter (\<lambda>line. trim line \<noteq> []) (splitLines text)")
  case Nil
  then show ?thesis by (simp add: extractTitle_no_line extractTitle_No_title)
next
  case (Cons l ls)
  from assms have short: "\<not> 100 < length (trim l)"
    by (auto simp: extractTitle_first_line[OF Cons] js_def)
  then have t: "extractTitle text = trim l"
    by (simp add: extractTitle_first_line[OF Cons])
  from Cons have "l \<in> set (filter (\<lambda>line. trim line \<noteq> []) (splitLines text))" by simp
  then have l: "l \<in> set (splitLines text)" "trim l \<noteq> []" by simp_all
  from splitLines_no_line_feed[OF l(1)] set_trim[of l] have "10 \<notin> set (trim l)" by auto
  with l(2) short have "extractTitle (trim l) = trim l"
    by (intro extractTitle_trimmed_line) (simp_all add: trim_idem)
  with t show ?thesis by simp
qed


section \<open>Titles of emitted items\<close>

lemma trimmed_first_line:
  assumes "30 \<le> length (trim r)"
  shows "\<exists>l ls. filter (\<lambda>line. trim line \<noteq> []) (splitLines (trim r)) = l # ls \<and> trim l \<noteq> []"
proof -
  from assms obtain c s where cs: "trim r = c # s" by (cases "trim r") auto
  with trim_ends[of r] have c: "\<not> isWhiteSpace c" by simp
  with line_feed_is_space have "c \<noteq> 10" by auto
  from splitLines_first[OF this, of s] obtain l ls where "splitLines (c # s) = (c # l) # ls"
    by blast
  with trim_Cons_nonblank[OF c, of l] cs show ?thesis by simp
qed


section \<open>Targeted extraction\<close>

lemma evaluateElement_recordOf:
  "(case evaluateElement h of
      Inl e \<Rightarrow> []
    | Inr item \<Rightarrow> if rawText item \<noteq> [] \<and> length (rawText item) > 20 then [item] else [])
   = (case recordOf h of None \<Rightarrow> [] | Some r \<Rightarrow> [r])"
  by (cases h) (auto simp: visibleText_def)

lemma extractLoop_eq:
  "extractLoop elements i collected =
     collected @ List.map_filter recordOf (drop i (take 20 elements))"
proof (induction elements i collected rule: extractLoop.induct)
  case (1 elements i collected)
  show ?case
  proof (cases "i < min (length elements) 20")
    case False
    then have "min (length elements) 20 \<le> i" by linarith
    then have "drop i (take 20 elements) = []" by simp
    moreover from False have "extractLoop elements i collected = collected"
      by (subst extractLoop.simps) auto
    ultimately show ?thesis by (simp add: map_filter_simps)
  next
    case True
    then have "i < length (take 20 elements)" by simp
    from Cons_nth_drop_Suc[OF this] True
    have d: "drop i (take 20 elements) = elements ! i # drop (Suc i) (take 20 elements)"
      by simp
    show ?thesis
    proof (cases "evaluateElement (elements ! i)")
      case (Inl e)
      with evaluateElement_recordOf[of "elements ! i"] have "recordOf (elements ! i) = None"
        by (simp split: option.splits)
      with True Inl 1(1) d show ?thesis
        by (simp add: extractLoop.simps[of elements i] map_filter_simps)
    next
      case (Inr item)
      show ?thesis
      proof (cases "rawText item \<noteq> [] \<and> length (rawText item) > 20")
        case keep: True
        with Inr evaluateElement_recordOf[of "elements ! i"]
        have "recordOf (elements ! i) = Some item" by (simp split: option.splits)
        with True Inr keep 1(2) d show ?thesis
          by (simp add: extractLoop.simps[of elements i] map_filter_simps)
      next
        case skip: False
        with Inr evaluateElement_recordOf[of "elements ! i"]
        have "recordOf (elements ! i) = None" by (simp split: option.splits)
        with True Inr skip 1(3) d show ?thesis
          by (auto simp: extractLoop.simps[of elements i] map_filter_simps)
      qed
    qed
  qed
qed


section \<open>scrapeCompetitor and run\<close>







section \<open>The search for a match\<close>

lemma codeUnitBefore_Suc:
  "codeUnitBefore p (c # s) (Suc i) = codeUnitBefore (Some c) s i"
  by (cases i) (simp_all add: codeUnitBefore_def)

lemma exec_None:
  "(exec ic r p s = None) = (\<forall>i\<le>length s. ends ic r (codeUnitBefore p s i) (drop i s) = [])"
proof (induction s arbitrary: p)
  case Nil
  then show ?case by (simp add: codeUnitBefore_def split: list.splits)
next
  case (Cons c s)
  have "(\<forall>i\<le>length (c # s). ends ic r (codeUnitBefore p (c # s) i) (drop i (c # s)) = [])
        = (ends ic r p (c # s) = []
           \<and> (\<forall>i\<le>length s. ends ic r (codeUnitBefore (Some c) s i) (drop i s) = []))"
    (is "?L = ?R")
  proof
    assume l: ?L
    from l[rule_format, of 0] have "ends ic r p (c # s) = []" by (simp add: codeUnitBefore_def)
    moreover have "\<forall>i\<le>length s. ends ic r (codeUnitBefore (Some c) s i) (drop i s) = []"
    proof (intro allI impI)
      fix i assume "i \<le> length s"
      with l[rule_format, of "Suc i"] show "ends ic r (codeUnitBefore (Some c) s i) (drop i s) = []"
        by (simp add: codeUnitBefore_Suc)
    qed
    ultimately show ?R by simp
  next
    assume r: ?R
    show ?L
    proof (intro allI impI)
      fix i assume i: "i \<le> length (c # s)"
      show "ends ic r (codeUnitBefore p (c # s) i) (drop i (c # s)) = []"
      proof (cases i)
        case 0
        with r show ?thesis by (simp add: codeUnitBefore_def)
      next
        case (Suc i')
        with r i show ?thesis by (simp add: codeUnitBefore_Suc)
      qed
    qed
  qed
  with Cons.IH[of "Some c"] show ?case by (simp split: list.splits)
qed







section \<open>The date of an item\<close>







section \<open>Matches of the patterns\<close>

lemma ends_Lit:
  "((q, post) \<in> set (ends ic (Lit w) p s)) =
     (\<exists>m. s = m @ post \<and> map (canonicalize ic) m = map (canonicalize ic) w
          \<and> q = (if m = [] then p else Some (last m)))"
proof (induction w arbitrary: p s)
  case Nil
  then show ?case by auto
next
  case (Cons x w)
  show ?case
  proof (cases s)
    case Nil
    then show ?thesis by simp
  next
    case (Cons c s')
    show ?thesis
    proof (cases "canonicalize ic c = canonicalize ic x")
      case False
      with Cons show ?thesis by (auto simp: Cons_eq_append_conv)
    next
      case True
      have "(\<exists>m. c # s' = m @ post \<and> map (canonicalize ic) m = map (canonicalize ic) (x # w)
                \<and> q = (if m = [] then p else Some (last m)))
            = (\<exists>m'. s' = m' @ post \<and> map (canonicalize ic) m' = map (canonicalize ic) w
                \<and> q = (if m' = [] then Some c else Some (last m')))"
        (is "?L = ?R")
      proof
        assume ?L
        then obtain m where m: "c # s' = m @ post" "map (canonicalize ic) m = map (canonicalize ic) (x # w)"
          "q = (if m = [] then p else Some (last m))" by blast
        from m(2) obtain c' m' where m': "m = c' # m'" by (cases m) auto
        with m show ?R by (intro exI[of _ m']) auto
      next
        assume ?R
        then obtain m' where "s' = m' @ post" "map (canonicalize ic) m' = map (canonicalize ic) w"
          "q = (if m' = [] then Some c else Some (last m'))" by blast
        with True show ?L by (intro exI[of _ "c # m'"]) auto
      qed
      with True Cons Cons.IH[of "Some c" s'] show ?thesis by simp
    qed
  qed
qed

lemma set_ends_alts:
  "rs \<noteq> [] \<Longrightarrow> set (ends ic (alts rs) p s) = (\<Union>r\<in>set rs. set (ends ic r p s))"
  by (induction rs rule: alts.induct) auto

lemma ends_word_pattern:
  "(ends ic (Seq WordB (Seq a WordB)) p s \<noteq> []) =
     (isWordBoundary p s \<and> (\<exists>(q, post)\<in>set (ends ic a p s). isWordBoundary q post))"
proof -
  have "(ends ic (Seq a WordB) p s \<noteq> []) = (\<exists>(q, post)\<in>set (ends ic a p s). isWordBoundary q post)"
    by (fastforce simp: concat_eq_Nil_conv split: if_splits)
  then show ?thesis by simp
qed


section \<open>Equality up to case\<close>

lemma canonicalize_asciiLower:
  "(canonicalize True c = canonicalize True x) = (asciiLower c = asciiLower x)"
  by (auto simp: canonicalize_def asciiLower_def)

lemma map_canonicalize_eq:
  "(map (canonicalize True) m = map (canonicalize True) w) = equalIgnoringCase m w"
proof (induction m arbitrary: w)
  case Nil
  then show ?case by (auto simp: equalIgnoringCase_def)
next
  case (Cons c m)
  then show ?case
    by (cases w) (auto simp: equalIgnoringCase_def canonicalize_asciiLower)
qed

lemma letter_is_word_char:
  "asciiLower c = asciiLower x \<Longrightarrow> 97 \<le> x \<and> x \<le> 122 \<Longrightarrow> isWordChar c"
  by (auto simp: asciiLower_def isWordChar_def split: if_splits)

lemma equalIgnoringCase_word_chars:
  assumes "equalIgnoringCase m w" and "\<forall>x\<in>set w. 97 \<le> x \<and> x \<le> 122"
  shows "\<forall>c\<in>set m. isWordChar c"
  using assms
proof (induction m arbitrary: w)
  case Nil
  then show ?case by simp
next
  case (Cons c m)
  then obtain x w' where w: "w = x # w'" by (cases w) (auto simp: equalIgnoringCase_def)
  with Cons.prems have "asciiLower c = asciiLower x" "equalIgnoringCase m w'"
    "97 \<le> x \<and> x \<le> 122" "\<forall>x\<in>set w'. 97 \<le> x \<and> x \<le> 122"
    by (simp_all add: equalIgnoringCase_def)
  with Cons.IH[of w'] letter_is_word_char[of c x] show ?case by simp
qed

lemma equalIgnoringCase_length: "equalIgnoringCase m w \<Longrightarrow> length m = length w"
  unfolding equalIgnoringCase_def by (rule map_eq_imp_length_eq)

lemma updateKeywords_letters:
  "\<forall>w\<in>set updateKeywords. js w \<noteq> [] \<and> (\<forall>x\<in>set (js w). 97 \<le> x \<and> x \<le> 122)"
  by (simp add: updateKeywords_def js_def)


section \<open>The update words\<close>

lemma isWordBoundary_before_word:
  "isWordChar c \<Longrightarrow>
   isWordBoundary p (c # s) = (case p of None \<Rightarrow> True | Some b \<Rightarrow> \<not> isWordChar b)"
  by (simp add: isWordBoundary_def split: option.splits)

lemma isWordBoundary_after_word:
  "isWordChar c \<Longrightarrow> isWordBoundary (Some c) post = (post = [] \<or> \<not> isWordChar (hd post))"
  by (cases post) (simp_all add: isWordBoundary_def)

lemma ends_updateWords:
  "(ends True updateWords p s \<noteq> []) =
     (\<exists>w\<in>set updateKeywords. \<exists>m post. s = m @ post \<and> equalIgnoringCase m (js w)
        \<and> (case p of None \<Rightarrow> True | Some b \<Rightarrow> \<not> isWordChar b)
        \<and> (post = [] \<or> \<not> isWordChar (hd post)))"
  (is "?L = ?R")
proof -
  let ?A = "alts (map (\<lambda>w. Lit (js w)) updateKeywords)"
  have u: "updateWords = Seq WordB (Seq ?A WordB)" by (simp add: updateWords_def)
  have ne: "map (\<lambda>w. Lit (js w)) updateKeywords \<noteq> []" by (simp add: updateKeywords_def)
  have mem: "\<And>q post. ((q, post) \<in> set (ends True ?A p s)) =
      (\<exists>w\<in>set updateKeywords. \<exists>m. s = m @ post \<and> equalIgnoringCase m (js w)
          \<and> q = (if m = [] then p else Some (last m)))"
    by (simp add: set_ends_alts[OF ne] ends_Lit map_canonicalize_eq)
  have word: "\<And>w m. w \<in> set updateKeywords \<Longrightarrow> equalIgnoringCase m (js w) \<Longrightarrow>
      m \<noteq> [] \<and> isWordChar (hd m) \<and> isWordChar (last m)"
  proof -
    fix w m
    assume w: "w \<in> set updateKeywords" and e: "equalIgnoringCase m (js w)"
    from w updateKeywords_letters have l: "js w \<noteq> []" "\<forall>x\<in>set (js w). 97 \<le> x \<and> x \<le> 122"
      by auto
    from equalIgnoringCase_length[OF e] l(1) have "m \<noteq> []" by auto
    with equalIgnoringCase_word_chars[OF e l(2)]
    show "m \<noteq> [] \<and> isWordChar (hd m) \<and> isWordChar (last m)" by simp
  qed
  show ?thesis
  proof
    assume ?L
    then have b: "isWordBoundary p s" and "\<exists>(q, post)\<in>set (ends True ?A p s). isWordBoundary q post"
      unfolding u ends_word_pattern by simp_all
    then obtain q post where qp: "(q, post) \<in> set (ends True ?A p s)" "isWordBoundary q post"
      by auto
    from qp(1) obtain w m where w: "w \<in> set updateKeywords" "s = m @ post"
      "equalIgnoringCase m (js w)" "q = (if m = [] then p else Some (last m))"
      unfolding mem by blast
    from word[OF w(1,3)] have m: "m \<noteq> []" "isWordChar (hd m)" "isWordChar (last m)" by simp_all
    from m(1) obtain c m' where cm: "m = c # m'" by (cases m) auto
    with b w(2) m(2) have "case p of None \<Rightarrow> True | Some b \<Rightarrow> \<not> isWordChar b"
      by (simp add: isWordBoundary_before_word)
    moreover from qp(2) w(4) m have "post = [] \<or> \<not> isWordChar (hd post)"
      by (simp add: isWordBoundary_after_word)
    ultimately show ?R using w by blast
  next
    assume ?R
    then obtain w m post where w: "w \<in> set updateKeywords" "s = m @ post"
      "equalIgnoringCase m (js w)" "case p of None \<Rightarrow> True | Some b \<Rightarrow> \<not> isWordChar b"
      "post = [] \<or> \<not> isWordChar (hd post)" by blast
    from word[OF w(1,3)] have m: "m \<noteq> []" "isWordChar (hd m)" "isWordChar (last m)" by simp_all
    from m(1) obtain c m' where cm: "m = c # m'" by (cases m) auto
    with w(2,4) m(2) have b: "isWordBoundary p s" by (simp add: isWordBoundary_before_word)
    from w m have "(Some (last m), post) \<in> set (ends True ?A p s)"
      unfolding mem by auto
    moreover from w(5) m(3) have "isWordBoundary (Some (last m)) post"
      by (simp add: isWordBoundary_after_word)
    ultimately have "\<exists>(q, post)\<in>set (ends True ?A p s). isWordBoundary q post" by blast
    with b show ?L unfolding u ends_word_pattern by simp
  qed
qed

lemma jsTest_updateWords:
  "jsTest True updateWords t = (\<exists>w\<in>set updateKeywords. containsWholeWord t (js w))"
  (is "?L = ?R")
proof
  assume ?L
  then obtain i where i: "i \<le> length t"
    "ends True updateWords (codeUnitBefore None t i) (drop i t) \<noteq> []"
    by (auto simp: jsTest_def exec_None)
  from i(2) obtain w m post where w: "w \<in> set updateKeywords" "drop i t = m @ post"
    "equalIgnoringCase m (js w)"
    "case codeUnitBefore None t i of None \<Rightarrow> True | Some b \<Rightarrow> \<not> isWordChar b"
    "post = [] \<or> \<not> isWordChar (hd post)"
    unfolding ends_updateWords by blast
  have "take i t = [] \<or> \<not> isWordChar (last (take i t))"
  proof (cases "i = 0")
    case True
    then show ?thesis by simp
  next
    case False
    with i(1) have "take i t \<noteq> []" by auto
    with False i(1) have "last (take i t) = t ! (i - 1)"
      by (simp add: last_conv_nth min_def)
    with False w(4) show ?thesis by (simp add: codeUnitBefore_def)
  qed
  moreover from w(2) have "t = take i t @ m @ post" by (metis append_take_drop_id)
  ultimately have "containsWholeWord t (js w)"
    unfolding containsWholeWord_def using w(3,5) by blast
  with w(1) show ?R by blast
next
  assume ?R
  then obtain w pre m post where w: "w \<in> set updateKeywords" "t = pre @ m @ post"
    "equalIgnoringCase m (js w)" "pre = [] \<or> \<not> isWordChar (last pre)"
    "post = [] \<or> \<not> isWordChar (hd post)"
    unfolding containsWholeWord_def by blast
  let ?i = "length pre"
  from w(2) have d: "drop ?i t = m @ post" and le: "?i \<le> length t" by simp_all
  have "case codeUnitBefore None t ?i of None \<Rightarrow> True | Some b \<Rightarrow> \<not> isWordChar b"
  proof (cases "pre = []")
    case True
    then show ?thesis by (simp add: codeUnitBefore_def)
  next
    case False
    with w(2) have "t ! (?i - 1) = last pre"
      by (simp add: nth_append last_conv_nth)
    with False w(4) show ?thesis by (simp add: codeUnitBefore_def)
  qed
  with w d have "ends True updateWords (codeUnitBefore None t ?i) (drop ?i t) \<noteq> []"
    unfolding ends_updateWords by blast
  with le show ?L by (auto simp: jsTest_def exec_None)
qed


section \<open>The stable sort is determined\<close>

lemma compareItems_refl: "compareItems a a \<le> 0"
  by (simp add: compareItems_le)

lemma compareItems_same_key:
  "compareItems a b \<le> 0 \<Longrightarrow> compareItems b a \<le> 0 \<Longrightarrow>
   sameKey (isLikelyUpdate a) (contentLength a) b"
  by (auto simp: compareItems_le sameKey_def)

lemma filters_Nil:
  assumes "\<forall>f n. filter (sameKey f n) ys = []"
  shows "ys = []"
proof (cases ys)
  case Nil
  then show ?thesis .
next
  case (Cons y ys')
  with assms[rule_format, of "isLikelyUpdate y" "contentLength y"] show ?thesis
    by (simp add: sameKey_def)
qed

lemma sorted_same_filters:
  assumes "sorted_wrt (\<lambda>a b. compareItems a b \<le> 0) xs"
    and "sorted_wrt (\<lambda>a b. compareItems a b \<le> 0) ys"
    and "\<forall>f n. filter (sameKey f n) xs = filter (sameKey f n) ys"
  shows "xs = ys"
  using assms
proof (induction xs arbitrary: ys)
  case Nil
  then have "\<forall>f n. filter (sameKey f n) ys = []" by simp
  then have "ys = []" by (rule filters_Nil)
  then show ?case by simp
next
  case (Cons x xs)
  let ?kx = "sameKey (isLikelyUpdate x) (contentLength x)"
  have kx: "?kx x" by (simp add: sameKey_def)
  from Cons.prems(3)[rule_format, of "isLikelyUpdate x" "contentLength x"] kx
  have fx: "x # filter ?kx xs = filter ?kx ys" by simp
  then obtain y ys' where ys: "ys = y # ys'" by (cases ys) auto
  let ?ky = "sameKey (isLikelyUpdate y) (contentLength y)"
  have ky: "?ky y" by (simp add: sameKey_def)
  from fx have "x \<in> set (filter ?kx ys)" by (metis list.set_intros(1))
  then have "x \<in> set ys" by simp
  with ys Cons.prems(2) have yx: "compareItems y x \<le> 0"
    by (auto simp: compareItems_refl)
  from Cons.prems(3)[rule_format, of "isLikelyUpdate y" "contentLength y"] ys ky
  have "filter ?ky (x # xs) = y # filter ?ky ys'" by simp
  then have "y \<in> set (filter ?ky (x # xs))" by (metis list.set_intros(1))
  then have "y \<in> set (x # xs)" by (simp only: set_filter) simp
  with Cons.prems(1) have xy: "compareItems x y \<le> 0"
    by (auto simp: compareItems_refl)
  from compareItems_same_key[OF xy yx] have same: "?kx y" .
  with fx ys have eq: "x = y" by simp
  have "\<forall>f n. filter (sameKey f n) xs = filter (sameKey f n) ys'"
  proof (intro allI)
    fix f n
    from Cons.prems(3)[rule_format, of f n] ys eq
    show "filter (sameKey f n) xs = filter (sameKey f n) ys'"
      by (cases "sameKey f n y") simp_all
  qed
  moreover from Cons.prems(1) have "sorted_wrt (\<lambda>a b. compareItems a b \<le> 0) xs" by simp
  moreover from Cons.prems(2) ys have "sorted_wrt (\<lambda>a b. compareItems a b \<le> 0) ys'" by simp
  ultimately have "xs = ys'" by (rule Cons.IH[rotated 2])
  with eq ys show ?case by simp
qed

lemma stable_sort_unique:
  assumes "sorted_wrt (\<lambda>a b. compareItems a b \<le> 0) ys"
    and "\<forall>f n. filter (sameKey f n) ys = filter (sameKey f n) xs"
  shows "ys = jsSort compareItems xs"
  using assms by (intro sorted_same_filters) (simp_all add: sorted_jsSort filter_jsSort)


section \<open>Examples\<close>

lemma longDate_examples:
  "jsMatch True longDate (js ''Shipped on march  3 2024.'') = Some (js ''march  3 2024'')"
  "jsMatch True longDate (js ''Shipped on Mar 3, 2024.'') = None"
  "jsMatch True longDate (js ''Shipped on March 3, 20245'') = None"
  by (simp_all add: regex_eval)

lemma slashDate_examples:
  "jsMatch False slashDate (js ''Due 12/3/2024, or 1/1/2025'') = Some (js ''12/3/2024'')"
  "jsMatch False slashDate (js ''Build 123/3/2024'') = None"
  by (simp_all add: regex_eval)

lemma isoDate_examples:
  "jsMatch False isoDate (js ''v2 of 2024-03-07?'') = Some (js ''2024-03-07'')"
  "jsMatch False isoDate (js ''id 12024-03-07'') = None"
  by (simp_all add: regex_eval)

lemma updateWords_examples:
  "jsTest True updateWords (js ''Bug FIX for exports'')"
  "\<not> jsTest True updateWords (js ''We launched dark mode'')"
  "\<not> jsTest True updateWords (js ''new_feature flag'')"
  by (simp_all add: regex_eval)

lemma processContent_scenario:
  "map (\<lambda>x. (title x, isLikelyUpdate x, extractedDate x))
       (processContent id [\<lparr>rawText = scenarioText, html = None, tagName = [], className = []\<rparr>] [])
   = [(js ''New Feature Release'', True, Some (js ''January 5, 2025''))]"
  by (simp add: scenarioText_def item_eval)


section \<open>The claims\<close>

text \<open>
  C1. The items that processContent returns are sorted: no item that is not a likely
  update stands directly before one that is, and of two neighbours with the same flag the
  first is at least as long. The sort is stable: the items of one flag and one length
  stand in the order they had before the sort, which is the order of their records in
  the input.
\<close>

theorem processContent_sorted_stable:
  "(\<forall>i. Suc i < length (processContent ul raw nm) \<longrightarrow>
       \<not> (isLikelyUpdate (processContent ul raw nm ! Suc i)
            \<and> \<not> isLikelyUpdate (processContent ul raw nm ! i))
     \<and> (isLikelyUpdate (processContent ul raw nm ! i)
          = isLikelyUpdate (processContent ul raw nm ! Suc i)
        \<longrightarrow> contentLength (processContent ul raw nm ! Suc i)
            \<le> contentLength (processContent ul raw nm ! i)))
   \<and> (\<forall>f n. filter (sameKey f n) (processContent ul raw nm)
            = filter (sameKey f n) (beforeSort ul raw nm))
   \<and> (\<exists>ks. sorted_wrt (<) ks \<and> (\<forall>k\<in>set ks. k < length raw)
          \<and> beforeSort ul raw nm = map (\<lambda>k. makeItem ul nm k (trim (rawText (raw ! k)))) ks)"
proof (intro conjI allI impI)
  fix i
  assume i: "Suc i < length (processContent ul raw nm)"
  have "sorted_wrt (\<lambda>a b. compareItems a b \<le> 0) (processContent ul raw nm)"
    by (simp add: processContent_def sorted_jsSort)
  from sorted_wrt_nth_less[OF this, of i "Suc i"] i have le: "compareItems (processContent ul raw nm ! i) (processContent ul raw nm ! Suc i) \<le> 0"
    by simp
  from le show "\<not> (isLikelyUpdate (processContent ul raw nm ! Suc i)
            \<and> \<not> isLikelyUpdate (processContent ul raw nm ! i))"
    by (auto simp: compareItems_le)
  assume "isLikelyUpdate (processContent ul raw nm ! i)
          = isLikelyUpdate (processContent ul raw nm ! Suc i)"
  with le show "contentLength (processContent ul raw nm ! Suc i)
            \<le> contentLength (processContent ul raw nm ! i)"
    by (auto simp: compareItems_le)
next
  fix f n
  show "filter (sameKey f n) (processContent ul raw nm) = filter (sameKey f n) (beforeSort ul raw nm)"
    by (simp add: processContent_def filter_jsSort)
next
  show "\<exists>ks. sorted_wrt (<) ks \<and> (\<forall>k\<in>set ks. k < length raw)
          \<and> beforeSort ul raw nm = map (\<lambda>k. makeItem ul nm k (trim (rawText (raw ! k)))) ks"
    by (rule beforeSort_in_input_order)
qed

theorem processContent_sorted_stable_witness:
  "Suc 1 < length (processContent id batch1 (js ''Braze''))
   \<and> isLikelyUpdate (processContent id batch1 (js ''Braze'') ! 1)
       = isLikelyUpdate (processContent id batch1 (js ''Braze'') ! Suc 1)
   \<and> contentLength (processContent id batch1 (js ''Braze'') ! Suc 1)
       \<le> contentLength (processContent id batch1 (js ''Braze'') ! 1)
   \<and> map itemId (filter (sameKey False 33) (processContent id batch1 (js ''Braze'')))
       = [js ''braze_0'', js ''braze_3'']
   \<and> map itemId (filter (sameKey False 33) (beforeSort id batch1 (js ''Braze'')))
       = [js ''braze_0'', js ''braze_3'']"
proof -
  have out: "map (\<lambda>x. (itemId x, isLikelyUpdate x, contentLength x))
               (processContent id batch1 (js ''Braze'')) =
             [(js ''braze_2'', True, 34), (js ''braze_0'', False, 33), (js ''braze_3'', False, 33)]"
    by (rule batch1_out)
  from arg_cong[OF out, of length]
  have len: "length (processContent id batch1 (js ''Braze'')) = 3"
    by simp
  have n1: "(\<lambda>x. (itemId x, isLikelyUpdate x, contentLength x)) (processContent id batch1 (js ''Braze'') ! 1)
            = (js ''braze_0'', False, 33)"
    using arg_cong[OF out, of "\<lambda>l. l ! 1"] len by (simp add: nth_map)
  have n2: "(\<lambda>x. (itemId x, isLikelyUpdate x, contentLength x)) (processContent id batch1 (js ''Braze'') ! Suc 1)
            = (js ''braze_3'', False, 33)"
    using arg_cong[OF out, of "\<lambda>l. l ! Suc 1"] len by (simp add: nth_map)
  have ids: "map itemId (filter (sameKey False 33) (processContent id batch1 (js ''Braze'')))
       = [js ''braze_0'', js ''braze_3'']"
    using arg_cong[OF out, of "\<lambda>l. map fst (filter (\<lambda>(i, f, n). f = False \<and> n = 33) l)"]
    by (simp add: filter_map comp_def sameKey_def[abs_def] js_def)
  from processContent_sorted_stable[of id batch1 "js ''Braze''"] len n1 n2 ids
  show ?thesis by simp
qed

text \<open>
  C2. Every item that processContent emits comes from a record of the batch whose trimmed
  text has at least 30 code units, and its contentLength is that length. A record with
  fewer than 30 (so one with exactly 29) is rejected: no emitted item carries the id of
  its position. A record with at least 30 (so one with exactly 30) whose fingerprint no
  earlier record of the batch has is emitted.
\<close>

theorem processContent_length_threshold:
  "(\<forall>item\<in>set (processContent ul raw nm).
       30 \<le> contentLength item \<and> contentLength item = length (fullContent item)
       \<and> (\<exists>k<length raw. itemId item = generateId ul nm k
              \<and> fullContent item = trim (rawText (raw ! k))))
   \<and> (\<forall>k<length raw. length (trim (rawText (raw ! k))) < 30 \<longrightarrow>
          generateId ul nm k \<notin> itemId ` set (processContent ul raw nm))
   \<and> (\<forall>k<length raw. 30 \<le> length (trim (rawText (raw ! k)))
          \<and> (\<forall>j<k. fingerprint raw j \<noteq> fingerprint raw k) \<longrightarrow>
          makeItem ul nm k (trim (rawText (raw ! k))) \<in> set (processContent ul raw nm))"
proof (intro conjI ballI allI impI)
  fix item
  assume "item \<in> set (processContent ul raw nm)"
  then obtain k where k: "k < length raw" "item = makeItem ul nm k (trim (rawText (raw ! k)))"
    "30 \<le> length (trim (rawText (raw ! k)))" by (rule emitted_cases)
  then show "30 \<le> contentLength item" and "contentLength item = length (fullContent item)"
    by (simp_all add: makeItem_simps)
  from k show "\<exists>k<length raw. itemId item = generateId ul nm k
              \<and> fullContent item = trim (rawText (raw ! k))"
    by (auto simp: makeItem_simps)
next
  fix k
  assume "k < length raw" "length (trim (rawText (raw ! k))) < 30"
  then show "generateId ul nm k \<notin> itemId ` set (processContent ul raw nm)"
    using not_emitted_short[of k raw _ ul nm] by fastforce
next
  fix k
  assume "k < length raw" "30 \<le> length (trim (rawText (raw ! k)))
          \<and> (\<forall>j<k. fingerprint raw j \<noteq> fingerprint raw k)"
  then show "makeItem ul nm k (trim (rawText (raw ! k))) \<in> set (processContent ul raw nm)"
    by (simp add: emitted_fresh)
qed

theorem processContent_length_threshold_witness:
  "length (trim (rawText (batch2 ! 0))) = 29
   \<and> generateId id (js ''Braze'') 0 \<notin> itemId ` set (processContent id batch2 (js ''Braze''))
   \<and> length (trim (rawText (batch2 ! 1))) = 30
   \<and> makeItem id (js ''Braze'') 1 (trim (rawText (batch2 ! 1)))
       \<in> set (processContent id batch2 (js ''Braze''))"
proof -
  have t0: "length (trim (rawText (batch2 ! 0))) = 29"
    and t1: "length (trim (rawText (batch2 ! 1))) = 30"
    and fp: "fingerprint batch2 0 \<noteq> fingerprint batch2 1"
    and len: "length batch2 = 2"
    by (simp_all add: batch2_def textRecord_def js_def trim_def isWhiteSpace_def fingerprint_def)
  have a: "(0::nat) < 2" and b: "(1::nat) < 2" by simp_all
  from fp have fresh: "\<forall>j<1. fingerprint batch2 j \<noteq> fingerprint batch2 1" by simp
  from processContent_length_threshold[of id batch2 "js ''Braze''"] len t0 a
  have "generateId id (js ''Braze'') 0 \<notin> itemId ` set (processContent id batch2 (js ''Braze''))"
    by simp
  moreover from processContent_length_threshold[of id batch2 "js ''Braze''"] len t1 b fresh
  have "makeItem id (js ''Braze'') 1 (trim (rawText (batch2 ! 1)))
       \<in> set (processContent id batch2 (js ''Braze''))"
    by simp
  ultimately show ?thesis using t0 t1 by simp
qed

text \<open>
  C3. No two items that one call of processContent emits have the same first 100 code
  units of their full trimmed text. Of two records of the batch with the same first 100
  trimmed code units the later one is rejected. The set of fingerprints starts empty in
  every call: a record of at least 30 code units is rejected as a duplicate only for an
  earlier record of the same batch.
\<close>

theorem processContent_deduplicates:
  "distinct (map (\<lambda>item. take 100 (fullContent item)) (processContent ul raw nm))
   \<and> (\<forall>j k. j < k \<and> k < length raw \<and> fingerprint raw j = fingerprint raw k \<longrightarrow>
          generateId ul nm k \<notin> itemId ` set (processContent ul raw nm))
   \<and> (\<forall>k<length raw. 30 \<le> length (trim (rawText (raw ! k)))
          \<and> (\<forall>j<k. fingerprint raw j \<noteq> fingerprint raw k) \<longrightarrow>
          generateId ul nm k \<in> itemId ` set (processContent ul raw nm))"
proof (intro conjI allI impI)
  show "distinct (map (\<lambda>item. take 100 (fullContent item)) (processContent ul raw nm))"
    by (rule distinct_fingerprints)
next
  fix j k
  assume "j < k \<and> k < length raw \<and> fingerprint raw j = fingerprint raw k"
  then show "generateId ul nm k \<notin> itemId ` set (processContent ul raw nm)"
    using not_emitted_duplicate[of j k raw _ ul nm] by fastforce
next
  fix k
  assume "k < length raw" "30 \<le> length (trim (rawText (raw ! k)))
          \<and> (\<forall>j<k. fingerprint raw j \<noteq> fingerprint raw k)"
  then have "makeItem ul nm k (trim (rawText (raw ! k))) \<in> set (processContent ul raw nm)"
    by (simp add: emitted_fresh)
  then have "itemId (makeItem ul nm k (trim (rawText (raw ! k))))
               \<in> itemId ` set (processContent ul raw nm)"
    by (rule imageI)
  then show "generateId ul nm k \<in> itemId ` set (processContent ul raw nm)"
    by (simp add: makeItem_simps)
qed

theorem processContent_deduplicates_witness:
  "fingerprint batch3 0 = fingerprint batch3 2
   \<and> generateId id (js ''Braze'') 2 \<notin> itemId ` set (processContent id batch3 (js ''Braze''))
   \<and> generateId id (js ''Braze'') 0 \<in> itemId ` set (processContent id batch3 (js ''Braze''))"
proof -
  have fp: "fingerprint batch3 0 = fingerprint batch3 2"
    and len: "length batch3 = 3"
    and t0: "30 \<le> length (trim (rawText (batch3 ! 0)))"
    by (simp_all add: batch3_def textRecord_def js_def trim_def isWhiteSpace_def fingerprint_def)
  have a: "(0::nat) < 2 \<and> (2::nat) < 3" and b: "(0::nat) < 3" by simp_all
  have fresh: "\<forall>j<0. fingerprint batch3 j \<noteq> fingerprint batch3 0" by simp
  from processContent_deduplicates[of id batch3 "js ''Braze''"] fp len a
  have "generateId id (js ''Braze'') 2 \<notin> itemId ` set (processContent id batch3 (js ''Braze''))"
    by metis
  moreover from processContent_deduplicates[of id batch3 "js ''Braze''"] len t0 b fresh
  have "generateId id (js ''Braze'') 0 \<in> itemId ` set (processContent id batch3 (js ''Braze''))"
    by metis
  ultimately show ?thesis using fp by simp
qed



text \<open>
  C5. An emitted item is a likely update exactly when its full trimmed text contains one
  of the ten words new, update, release, feature, improvement, launch, announce, version,
  fix, enhancement as a whole word, in any case of its letters: the word stands in the
  text with no word character (a letter, a digit or an underscore) directly before it
  and none directly after it. The word inside a longer word, as new in newsletter, does
  not count.
\<close>

theorem isLikelyUpdate_whole_word:
  "\<forall>item\<in>set (processContent ul raw nm).
     isLikelyUpdate item = (\<exists>w\<in>set updateKeywords. containsWholeWord (fullContent item) (js w))"
proof
  fix item
  assume "item \<in> set (processContent ul raw nm)"
  then obtain k where "item = makeItem ul nm k (trim (rawText (raw ! k)))"
    by (rule emitted_cases)
  then show "isLikelyUpdate item
             = (\<exists>w\<in>set updateKeywords. containsWholeWord (fullContent item) (js w))"
    by (simp add: makeItem_simps jsTest_updateWords)
qed

theorem isLikelyUpdate_whole_word_witness:
  "map (\<lambda>x. (itemId x, isLikelyUpdate x)) (processContent id batch5 (js ''Braze''))
     = [(js ''braze_1'', True), (js ''braze_0'', False)]
   \<and> (\<exists>w\<in>set updateKeywords.
         containsWholeWord (fullContent (processContent id batch5 (js ''Braze'') ! 0)) (js w))
   \<and> \<not> (\<exists>w\<in>set updateKeywords.
         containsWholeWord (fullContent (processContent id batch5 (js ''Braze'') ! 1)) (js w))
   \<and> \<not> containsWholeWord (js ''Read our newsletter for the updates'') (js ''new'')
   \<and> \<not> containsWholeWord (js ''Read our newsletter for the updates'') (js ''update'')"
proof -
  let ?out = "processContent id batch5 (js ''Braze'')"
  have ev: "map (\<lambda>x. (itemId x, isLikelyUpdate x, fullContent x)) ?out
     = [(js ''braze_1'', True, js ''A NEW dashboard, with renewed looks''),
        (js ''braze_0'', False, js ''Read our newsletter for the updates'')]"
    by (simp add: batch5_def textRecord_def item_eval)
  from arg_cong[OF ev, of length] have len: "length ?out = 2" by simp
  then have mem: "?out ! 0 \<in> set ?out" "?out ! 1 \<in> set ?out" by simp_all
  from arg_cong[OF ev, of "\<lambda>l. l ! 0"] len
  have i0: "isLikelyUpdate (?out ! 0)" by (simp add: nth_map)
  from arg_cong[OF ev, of "\<lambda>l. l ! 1"] len
  have i1: "\<not> isLikelyUpdate (?out ! 1)"
    and f1: "fullContent (?out ! 1) = js ''Read our newsletter for the updates''"
    by (simp_all add: nth_map)
  from isLikelyUpdate_whole_word[of id batch5 "js ''Braze''"] mem(1) i0
  have a: "\<exists>w\<in>set updateKeywords. containsWholeWord (fullContent (?out ! 0)) (js w)"
    by blast
  from isLikelyUpdate_whole_word[of id batch5 "js ''Braze''"] mem(2) i1
  have b: "\<not> (\<exists>w\<in>set updateKeywords. containsWholeWord (fullContent (?out ! 1)) (js w))"
    by blast
  then have "\<not> containsWholeWord (js ''Read our newsletter for the updates'') (js ''new'')"
    and "\<not> containsWholeWord (js ''Read our newsletter for the updates'') (js ''update'')"
    unfolding f1 by (simp_all add: updateKeywords_def)
  with a b arg_cong[OF ev, of "map (\<lambda>(i, u, f). (i, u))"] show ?thesis
    by (simp add: comp_def)
qed

text \<open>
  C6. The id of every emitted item is the lower-cased competitor name that processContent
  is given, an underscore and the decimal position of its record in the input batch,
  where the rejected records are counted too. Different positions give different ids, and
  the ids of one call are distinct. For each of the three configured competitors the
  lower-cased name is the key of its entry, which is in lower case already.
\<close>

theorem processContent_ids:
  "(\<forall>item\<in>set (processContent ul raw nm).
       \<exists>k<length raw. itemId item = toLowerCase ul nm @ js ''_'' @ decimal k
                     \<and> fullContent item = trim (rawText (raw ! k)))
   \<and> distinct (map itemId (processContent ul raw nm))
   \<and> (\<forall>j k. toLowerCase ul nm @ js ''_'' @ decimal j = toLowerCase ul nm @ js ''_'' @ decimal k
            \<longrightarrow> j = k)
   \<and> (\<forall>(key, c)\<in>set competitors. toLowerCase ul (name c) = toLowerCase ul key
                                  \<and> toLowerCase ul key = key)"
proof (intro conjI ballI allI impI)
  fix item
  assume "item \<in> set (processContent ul raw nm)"
  then obtain k where k: "k < length raw" "item = makeItem ul nm k (trim (rawText (raw ! k)))"
    by (rule emitted_cases)
  then show "\<exists>k<length raw. itemId item = toLowerCase ul nm @ js ''_'' @ decimal k
                     \<and> fullContent item = trim (rawText (raw ! k))"
    by (auto simp: makeItem_simps generateId_def)
next
  show "distinct (map itemId (processContent ul raw nm))" by (rule distinct_ids)
next
  fix j k
  assume "toLowerCase ul nm @ js ''_'' @ decimal j = toLowerCase ul nm @ js ''_'' @ decimal k"
  then show "j = k" by (simp add: decimal_inj)
next
  fix p
  assume "p \<in> set competitors"
  then show "case p of (key, c) \<Rightarrow> toLowerCase ul (name c) = toLowerCase ul key
                                  \<and> toLowerCase ul key = key"
    by (auto simp: competitors_def toLowerCase_def asciiLower_def js_def)
qed

theorem processContent_ids_witness:
  "map itemId (processContent id batch1 (js ''Braze'')) = [js ''braze_2'', js ''braze_0'', js ''braze_3'']
   \<and> (\<exists>k<length batch1.
         itemId (processContent id batch1 (js ''Braze'') ! 0) = toLowerCase id (js ''Braze'') @ js ''_'' @ decimal k
         \<and> fullContent (processContent id batch1 (js ''Braze'') ! 0) = trim (rawText (batch1 ! k)))
   \<and> distinct (map itemId (processContent id batch1 (js ''Braze'')))
   \<and> toLowerCase id (name (snd (competitors ! 0))) = fst (competitors ! 0)"
proof -
  have out: "map (\<lambda>x. (itemId x, isLikelyUpdate x, contentLength x))
               (processContent id batch1 (js ''Braze'')) =
             [(js ''braze_2'', True, 34), (js ''braze_0'', False, 33), (js ''braze_3'', False, 33)]"
    by (rule batch1_out)
  from arg_cong[OF out, of "map fst"]
  have ids: "map itemId (processContent id batch1 (js ''Braze''))
             = [js ''braze_2'', js ''braze_0'', js ''braze_3'']"
    by (simp add: comp_def)
  from arg_cong[OF out, of length]
  have "processContent id batch1 (js ''Braze'') \<noteq> []" by auto
  then have mem: "processContent id batch1 (js ''Braze'') ! 0 \<in> set (processContent id batch1 (js ''Braze''))"
    by simp
  have c0: "competitors ! 0 \<in> set competitors" by (simp add: competitors_def)
  from processContent_ids[of id batch1 "js ''Braze''"] mem c0 ids
  show ?thesis by (auto simp: case_prod_unfold)
qed

text \<open>
  C7. extractTitle returns the fixed string "No title" when no line of the text is
  non-blank, a line being blank when it trims to the empty string. Otherwise it returns
  the trimmed first non-blank line, cut to 100 code units and followed by "..." exactly
  when the trimmed line has more than 100. On a title of fewer than 100 code units it is
  idempotent.
\<close>

theorem extractTitle_spec:
  "(filter (\<lambda>line. trim line \<noteq> []) (splitLines text) = [] \<longrightarrow> extractTitle text = js ''No title'')
   \<and> (\<forall>l ls. filter (\<lambda>line. trim line \<noteq> []) (splitLines text) = l # ls \<longrightarrow>
          extractTitle text
            = (if 100 < length (trim l) then take 100 (trim l) @ js ''...'' else trim l))
   \<and> (length (extractTitle text) < 100 \<longrightarrow> extractTitle (extractTitle text) = extractTitle text)"
  by (simp add: extractTitle_no_line extractTitle_first_line extractTitle_idem)

theorem extractTitle_spec_witness:
  "length (extractTitle titleText) < 100
   \<and> extractTitle titleText = js ''What is new''
   \<and> extractTitle (extractTitle titleText) = extractTitle titleText
   \<and> filter (\<lambda>line. trim line \<noteq> []) (splitLines [32, 10, 9]) = []
   \<and> extractTitle [32, 10, 9] = js ''No title''"
proof -
  have t: "extractTitle titleText = js ''What is new''"
    by (simp add: titleText_def extractTitle_def js_def trim_def isWhiteSpace_def)
  then have short: "length (extractTitle titleText) < 100" by (simp add: js_def)
  have blank: "filter (\<lambda>line. trim line \<noteq> []) (splitLines [32, 10, 9]) = []"
    by (simp add: trim_def isWhiteSpace_def)
  from extractTitle_spec[of titleText] short
  have "extractTitle (extractTitle titleText) = extractTitle titleText" by blast
  moreover from extractTitle_spec[of "[32, 10, 9]"] blank
  have "extractTitle [32, 10, 9] = js ''No title''" by blast
  ultimately show ?thesis using t short blank by simp
qed

text \<open>
  C8 as stated fails at the boundary: an element whose trimmed visible text has exactly
  20 code units yields no record, since the source keeps a text only when its length is
  greater than 20.
\<close>

theorem extractContentFromElements_counterexample:
  "length (visibleText (textElement ''  exactly twenty chars  '')) = 20
   \<and> extractContentFromElements [Handle (textElement ''  exactly twenty chars  '')] = []"
  by (simp add: extractContentFromElements_def extractLoop.simps[of _ 0] extractLoop.simps[of _ "Suc 0"]
      textElement_def visibleText_def js_def trim_def isWhiteSpace_def)

text \<open>
  C8, amended. extractContentFromElements looks at the first 20 element handles only and
  returns, in their order, the records of those that yield one. A handle yields no record
  exactly when \<open>page.evaluate\<close> throws on it or the trimmed visible text of its element has
  at most 20 code units (an empty text among them); the record of an element carries
  that trimmed text.
\<close>

theorem extractContentFromElements_spec:
  "extractContentFromElements elements = List.map_filter recordOf (take 20 elements)
   \<and> length (extractContentFromElements elements) \<le> 20
   \<and> (\<forall>h. (recordOf h = None)
          = (case h of Stale e \<Rightarrow> True | Handle el \<Rightarrow> length (visibleText el) \<le> 20))
   \<and> (\<forall>el r. recordOf (Handle el) = Some r \<longrightarrow> rawText r = visibleText el)"
proof (intro conjI allI impI)
  show eq: "extractContentFromElements elements = List.map_filter recordOf (take 20 elements)"
    by (simp add: extractContentFromElements_def extractLoop_eq)
  have "length (List.map_filter recordOf (take 20 elements)) \<le> length (take 20 elements)"
    unfolding map_filter_def length_map by (rule length_filter_le)
  with eq show "length (extractContentFromElements elements) \<le> 20" by simp
next
  fix h
  show "(recordOf h = None)
          = (case h of Stale e \<Rightarrow> True | Handle el \<Rightarrow> length (visibleText el) \<le> 20)"
    by (cases h) auto
next
  fix el r
  assume "recordOf (Handle el) = Some r"
  then show "rawText r = visibleText el" by (auto split: if_splits)
qed

theorem extractContentFromElements_spec_witness:
  "length (visibleText (textElement ''twenty-one characters'')) = 21
   \<and> recordOf (Handle (textElement ''twenty-one characters'')) \<noteq> None
   \<and> length (extractContentFromElements (replicate 25 (Handle (textElement ''twenty-one characters'')))) = 20
   \<and> recordOf (Handle (textElement ''  exactly twenty chars  '')) = None"
proof -
  have l21: "length (visibleText (textElement ''twenty-one characters'')) = 21"
    and l20: "length (visibleText (textElement ''  exactly twenty chars  '')) = 20"
    by (simp_all add: textElement_def visibleText_def js_def trim_def isWhiteSpace_def)
  from l21 have some: "recordOf (Handle (textElement ''twenty-one characters'')) \<noteq> None"
    by simp
  then obtain r where r: "recordOf (Handle (textElement ''twenty-one characters'')) = Some r"
    by auto
  have "min 25 20 = (20::nat)" by simp
  with extractContentFromElements_spec[of "replicate 25 (Handle (textElement ''twenty-one characters''))"] r
  have len: "length (extractContentFromElements (replicate 25 (Handle (textElement ''twenty-one characters'')))) = 20"
    by (simp add: map_filter_def)
  from l20 have "recordOf (Handle (textElement ''  exactly twenty chars  '')) = None"
    by simp
  with l21 some len show ?thesis by simp
qed




text \<open>
  C10 as stated fails: a record whose first line reads "No title" is emitted with the
  title "No title", which is the string of the sentinel.
\<close>

theorem emitted_title_counterexample:
  "map title (processContent id batch4 (js ''Braze'')) = [js ''No title'']"
  by (simp add: batch4_def item_eval)

text \<open>
  C10, amended. For every emitted item the branch of extractTitle for a text without a
  non-blank line is not taken: the full text has a first non-blank line, the title is
  that line trimmed and cut to 100 code units as extractTitle cuts it, and it is not
  empty. (The title is the string "No title" only when that line produces it.)
\<close>

theorem emitted_title_is_first_line:
  "\<forall>item\<in>set (processContent ul raw nm).
     (\<exists>l ls. filter (\<lambda>line. trim line \<noteq> []) (splitLines (fullContent item)) = l # ls
        \<and> trim l \<noteq> []
        \<and> title item = (if 100 < length (trim l) then take 100 (trim l) @ js ''...'' else trim l))
     \<and> title item \<noteq> []"
proof
  fix item
  assume "item \<in> set (processContent ul raw nm)"
  then obtain k where k: "item = makeItem ul nm k (trim (rawText (raw ! k)))"
    "30 \<le> length (trim (rawText (raw ! k)))" by (rule emitted_cases)
  from trimmed_first_line[OF k(2)] obtain l ls
    where l: "filter (\<lambda>line. trim line \<noteq> []) (splitLines (trim (rawText (raw ! k)))) = l # ls"
      "trim l \<noteq> []" by blast
  have t: "title item = (if 100 < length (trim l) then take 100 (trim l) @ js ''...'' else trim l)"
    using k(1) l(1) by (simp add: makeItem_simps extractTitle_first_line)
  with l(2) have "title item \<noteq> []" by (auto simp: js_def)
  with k(1) l t show "(\<exists>l ls. filter (\<lambda>line. trim line \<noteq> []) (splitLines (fullContent item)) = l # ls
        \<and> trim l \<noteq> []
        \<and> title item = (if 100 < length (trim l) then take 100 (trim l) @ js ''...'' else trim l))
     \<and> title item \<noteq> []"
    by (simp add: makeItem_simps)
qed

theorem emitted_title_is_first_line_witness:
  "processContent id batch4 (js ''Braze'') ! 0 \<in> set (processContent id batch4 (js ''Braze''))
   \<and> title (processContent id batch4 (js ''Braze'') ! 0) \<noteq> []
   \<and> (\<exists>l ls. filter (\<lambda>line. trim line \<noteq> [])
               (splitLines (fullContent (processContent id batch4 (js ''Braze'') ! 0))) = l # ls
        \<and> trim l \<noteq> []
        \<and> title (processContent id batch4 (js ''Braze'') ! 0)
            = (if 100 < length (trim l) then take 100 (trim l) @ js ''...'' else trim l))"
proof -
  have "length (map title (processContent id batch4 (js ''Braze''))) = 1"
    by (simp add: batch4_def item_eval)
  then have "processContent id batch4 (js ''Braze'') \<noteq> []" by auto
  then have mem: "processContent id batch4 (js ''Braze'') ! 0
                  \<in> set (processContent id batch4 (js ''Braze''))" by simp
  from emitted_title_is_first_line[of id batch4 "js ''Braze''"] mem
  show ?thesis by blast
qed

end
